theory Spec2Isabelle
  imports Main "HOL-Library.Finite_Map"
begin

section \<open>Python values and their ordering\<close>

text \<open>
  The module \<open>is_sorted.py\<close> is written for \<open>Sequence[Any]\<close>: the elements are arbitrary
  Python objects, compared with \<open><\<close>, \<open><=\<close>, \<open>>\<close>, \<open>>=\<close> and tested with \<open>is None\<close>.
  The values covered here are \<open>None\<close>, integers, strings, lists and dictionaries with
  string keys. A Python \<open>bool\<close> is an \<open>int\<close> (\<open>True == 1\<close>, \<open>True < 2\<close>), so \<open>True\<close> and
  \<open>False\<close> are the values \<open>PInt 1\<close> and \<open>PInt 0\<close>; with that, Python's \<open>==\<close> on these
  values is equality of the datatype. Floating point numbers are left out.
\<close>

datatype pyval =
    PNone
  | PInt int
  | PStr string
  | PList "pyval list"
  | PDict "(string, pyval) fmap"

datatype error = TypeError | IndexError | KeyError

datatype cmpop = Lt | Le | Gt | Ge

fun int_holds :: "cmpop \<Rightarrow> int \<Rightarrow> int \<Rightarrow> bool" where
  "int_holds Lt a b = (a < b)"
| "int_holds Le a b = (a \<le> b)"
| "int_holds Gt a b = (a > b)"
| "int_holds Ge a b = (a \<ge> b)"

text \<open>Strings are ordered lexicographically by code point.\<close>

fun str_lt :: "string \<Rightarrow> string \<Rightarrow> bool" where
  "str_lt [] [] = False"
| "str_lt [] (d # ds) = True"
| "str_lt (c # cs) [] = False"
| "str_lt (c # cs) (d # ds) =
     (if c = d then str_lt cs ds else (of_char c :: nat) < of_char d)"

fun str_holds :: "cmpop \<Rightarrow> string \<Rightarrow> string \<Rightarrow> bool" where
  "str_holds Lt a b = str_lt a b"
| "str_holds Le a b = (a = b \<or> str_lt a b)"
| "str_holds Gt a b = str_lt b a"
| "str_holds Ge a b = (a = b \<or> str_lt b a)"

text \<open>
  The rich comparison of two values. Integers compare with integers and strings with
  strings. Two lists are compared at the first index where their items differ, with the
  requested operator, and by their lengths when one is a prefix of the other. Every
  other combination (anything with \<open>None\<close>, a dictionary, or two different types) raises
  \<open>TypeError\<close>.
\<close>

fun py_cmp :: "cmpop \<Rightarrow> pyval \<Rightarrow> pyval \<Rightarrow> error + bool"
  and list_cmp :: "cmpop \<Rightarrow> pyval list \<Rightarrow> pyval list \<Rightarrow> error + bool" where
  "py_cmp opr (PInt a) (PInt b) = Inr (int_holds opr a b)"
| "py_cmp opr (PStr a) (PStr b) = Inr (str_holds opr a b)"
| "py_cmp opr (PList a) (PList b) = list_cmp opr a b"
| "py_cmp opr _ _ = Inl TypeError"
| "list_cmp opr [] [] = Inr (int_holds opr 0 0)"
| "list_cmp opr [] (y # ys) = Inr (int_holds opr 0 (1 + int (length ys)))"
| "list_cmp opr (x # xs) [] = Inr (int_holds opr (1 + int (length xs)) 0)"
| "list_cmp opr (x # xs) (y # ys) =
     (if x = y then list_cmp opr xs ys else py_cmp opr x y)"

text \<open>The operator that holds of \<open>(y, x)\<close> when the given one holds of \<open>(x, y)\<close>.\<close>

fun mirrored :: "cmpop \<Rightarrow> cmpop" where
  "mirrored Lt = Gt"
| "mirrored Le = Ge"
| "mirrored Gt = Lt"
| "mirrored Ge = Le"

text \<open>The non-strict operator of each direction.\<close>

fun relaxed :: "cmpop \<Rightarrow> cmpop" where
  "relaxed Lt = Le"
| "relaxed Le = Le"
| "relaxed Gt = Ge"
| "relaxed Ge = Ge"

text \<open>
  Subscription \<open>e[k]\<close>, as used by key functions such as \<open>lambda e: e["age"]\<close>: a
  dictionary raises \<open>KeyError\<close> for a missing key (and \<open>TypeError\<close> for an unhashable
  one), a list and a string are indexed by an integer, negative indices counting from
  the end.
\<close>

definition wrap_index :: "nat \<Rightarrow> int \<Rightarrow> nat option" where
  "wrap_index len i =
     (if i < - int len \<or> int len \<le> i then None
      else if i < 0 then Some (nat (int len + i))
      else Some (nat i))"

fun py_getitem :: "pyval \<Rightarrow> pyval \<Rightarrow> error + pyval" where
  "py_getitem (PDict m) (PStr k) =
     (case fmlookup m k of None \<Rightarrow> Inl KeyError | Some v \<Rightarrow> Inr v)"
| "py_getitem (PDict m) (PList k) = Inl TypeError"
| "py_getitem (PDict m) (PDict k) = Inl TypeError"
| "py_getitem (PDict m) k = Inl KeyError"
| "py_getitem (PList xs) (PInt i) =
     (case wrap_index (length xs) i of None \<Rightarrow> Inl IndexError | Some j \<Rightarrow> Inr (xs ! j))"
| "py_getitem (PStr s) (PInt i) =
     (case wrap_index (length s) i of None \<Rightarrow> Inl IndexError | Some j \<Rightarrow> Inr (PStr [s ! j]))"
| "py_getitem c k = Inl TypeError"

section \<open>The module \<open>is_sorted.py\<close>\<close>

subsection \<open>Pairwise iteration\<close>

text \<open>
  \<^verbatim>\<open>
  def _pairwise(iterable):
      it = iter(iterable)
      a = next(it, None)
      if a is None:
          return
      for b in it:
          yield a, b
          a = b
  \<close>
  An iterator over a list is the list of the items still to come. \<open>next(it, None)\<close>
  takes the first of them, or yields the default \<open>None\<close> when there is none left. The
  generator only reads a list, so the pairs it yields are given as a list, consumed
  from the left by \<open>all\<close>.
\<close>

definition next_or_None :: "pyval list \<Rightarrow> pyval \<times> pyval list" where
  "next_or_None it = (case it of [] \<Rightarrow> (PNone, []) | x # rest \<Rightarrow> (x, rest))"

fun pairs_from :: "'a \<Rightarrow> 'a list \<Rightarrow> ('a \<times> 'a) list" where
  "pairs_from a [] = []"
| "pairs_from a (b # it) = (a, b) # pairs_from b it"

definition pairwise_backport :: "pyval list \<Rightarrow> (pyval \<times> pyval) list" where
  "pairwise_backport iterable =
     (let (a, it) = next_or_None iterable
      in if a = PNone then [] else pairs_from a it)"

text \<open>
  The library function \<open>itertools.pairwise\<close> (Python 3.10 and later) is not part of the
  repository; it is modelled from its documentation: successive overlapping pairs of
  the input, none when the input has fewer than two items.
\<close>

definition itertools_pairwise :: "'a list \<Rightarrow> ('a \<times> 'a) list" where
  "itertools_pairwise iterable = (case iterable of [] \<Rightarrow> [] | a # it \<Rightarrow> pairs_from a it)"

text \<open>
  \<^verbatim>\<open>
  try:
      from itertools import pairwise
  except ImportError:
      pairwise = _pairwise
  \<close>
  Which function the name \<open>pairwise\<close> is bound to is decided when the module is imported.
\<close>

datatype binding = Builtin | Backport

definition pairwise_py :: "binding \<Rightarrow> pyval list \<Rightarrow> (pyval \<times> pyval) list" where
  "pairwise_py pw = (case pw of Builtin \<Rightarrow> itertools_pairwise | Backport \<Rightarrow> pairwise_backport)"

subsection \<open>The checks\<close>

text \<open>
  \<open>all(g)\<close> over a generator evaluates the items one at a time, returns \<open>False\<close> at the
  first false one without evaluating the rest, and lets an exception raised by an item
  propagate.
\<close>

fun all_py :: "('a \<Rightarrow> error + bool) \<Rightarrow> 'a list \<Rightarrow> error + bool" where
  "all_py f [] = Inr True"
| "all_py f (p # ps) =
     (case f p of Inl e \<Rightarrow> Inl e | Inr b \<Rightarrow> if b then all_py f ps else Inr False)"

definition bind_err :: "error + 'a \<Rightarrow> ('a \<Rightarrow> error + 'b) \<Rightarrow> error + 'b" where
  "bind_err r f = (case r of Inl e \<Rightarrow> Inl e | Inr v \<Rightarrow> f v)"

type_synonym keyfn = "pyval \<Rightarrow> error + pyval"

text \<open>\<open>if key is None: key = lambda x: x\<close>\<close>

definition default_key :: "keyfn option \<Rightarrow> keyfn" where
  "default_key key = (case key of None \<Rightarrow> (\<lambda>x. Inr x) | Some k \<Rightarrow> k)"

text \<open>
  The generator item \<open>compare(key(x), key(y))\<close>: \<open>key(x)\<close> is evaluated first, then
  \<open>key(y)\<close>, then the comparison.
\<close>

definition compare_keys ::
  "(pyval \<Rightarrow> pyval \<Rightarrow> error + bool) \<Rightarrow> keyfn \<Rightarrow> pyval \<times> pyval \<Rightarrow> error + bool" where
  "compare_keys compare key = (\<lambda>(x, y).
     bind_err (key x) (\<lambda>kx. bind_err (key y) (\<lambda>ky. compare kx ky)))"

text \<open>\<open>compare = lambda x, y: x < y if strict else x <= y\<close>\<close>

definition compare_asc :: "bool \<Rightarrow> pyval \<Rightarrow> pyval \<Rightarrow> error + bool" where
  "compare_asc strict x y = (if strict then py_cmp Lt x y else py_cmp Le x y)"

text \<open>\<open>compare = lambda x, y: x > y if strict else x >= y\<close>\<close>

definition compare_desc :: "bool \<Rightarrow> pyval \<Rightarrow> pyval \<Rightarrow> error + bool" where
  "compare_desc strict x y = (if strict then py_cmp Gt x y else py_cmp Ge x y)"

text \<open>\<open>return all(compare(key(x), key(y)) for x, y in pairwise(lst))\<close>\<close>

definition is_sorted_ascending ::
  "binding \<Rightarrow> pyval list \<Rightarrow> bool \<Rightarrow> keyfn option \<Rightarrow> error + bool" where
  "is_sorted_ascending pw lst strict key =
     all_py (compare_keys (compare_asc strict) (default_key key)) (pairwise_py pw lst)"

definition is_sorted_descending ::
  "binding \<Rightarrow> pyval list \<Rightarrow> bool \<Rightarrow> keyfn option \<Rightarrow> error + bool" where
  "is_sorted_descending pw lst strict key =
     all_py (compare_keys (compare_desc strict) (default_key key)) (pairwise_py pw lst)"

subsection \<open>The alternative implementations\<close>

text \<open>\<open>return all(compare(x, y) for x, y in zip(lst, lst[1:]))\<close>\<close>

definition is_sorted_ascending_zip :: "pyval list \<Rightarrow> bool \<Rightarrow> error + bool" where
  "is_sorted_ascending_zip lst strict =
     all_py (\<lambda>(x, y). compare_asc strict x y) (zip lst (drop 1 lst))"

text \<open>
  \<open>range(n)\<close> is empty for \<open>n \<le> 0\<close>, as \<open>range(len(lst) - 1)\<close> is for the empty list.
  \<open>lst[i]\<close> with a non-negative index raises \<open>IndexError\<close> beyond the end.
\<close>

definition py_range :: "int \<Rightarrow> nat list" where
  "py_range n = [0 ..< nat n]"

definition item :: "pyval list \<Rightarrow> nat \<Rightarrow> error + pyval" where
  "item lst i = (if i < length lst then Inr (lst ! i) else Inl IndexError)"

definition compare_at :: "bool \<Rightarrow> pyval list \<Rightarrow> nat \<Rightarrow> error + bool" where
  "compare_at strict lst i =
     bind_err (item lst i) (\<lambda>x. bind_err (item lst (i + 1)) (\<lambda>y. compare_asc strict x y))"

text \<open>
  \<^verbatim>\<open>
  for i in range(len(lst) - 1):
      if not compare(lst[i], lst[i + 1]):
          return False
  return True
  \<close>
\<close>

fun for_loop :: "bool \<Rightarrow> pyval list \<Rightarrow> nat list \<Rightarrow> error + bool" where
  "for_loop strict lst [] = Inr True"
| "for_loop strict lst (i # rng) =
     (case compare_at strict lst i of
        Inl e \<Rightarrow> Inl e
      | Inr c \<Rightarrow> if \<not> c then Inr False else for_loop strict lst rng)"

definition is_sorted_ascending_loop :: "pyval list \<Rightarrow> bool \<Rightarrow> error + bool" where
  "is_sorted_ascending_loop lst strict =
     for_loop strict lst (py_range (int (length lst) - 1))"

text \<open>\<open>return all(compare(lst[i], lst[i + 1]) for i in range(len(lst) - 1))\<close>\<close>

definition is_sorted_ascending_range :: "pyval list \<Rightarrow> bool \<Rightarrow> error + bool" where
  "is_sorted_ascending_range lst strict =
     all_py (compare_at strict lst) (py_range (int (length lst) - 1))"

subsection \<open>Vocabulary of the properties\<close>

text \<open>
  The generator item of the primary checks for the adjacent pair at index \<open>i\<close>:
  \<open>compare(key(lst[i]), key(lst[i + 1]))\<close>. It is \<open>Inr True\<close> when the relation holds of
  the two projected keys, \<open>Inr False\<close> when they violate it, and an error when a key
  function or the comparison raises.
\<close>

definition asc_at :: "bool \<Rightarrow> keyfn option \<Rightarrow> pyval list \<Rightarrow> nat \<Rightarrow> error + bool" where
  "asc_at strict key lst i =
     compare_keys (compare_asc strict) (default_key key) (lst ! i, lst ! Suc i)"

definition desc_at :: "bool \<Rightarrow> keyfn option \<Rightarrow> pyval list \<Rightarrow> nat \<Rightarrow> error + bool" where
  "desc_at strict key lst i =
     compare_keys (compare_desc strict) (default_key key) (lst ! i, lst ! Suc i)"

text \<open>
  The relation of the specification, in its own words: each element is projected
  through \<open>key\<close> (the identity when no key function is given), and for the adjacent
  pair \<open>(key(e[i]), key(e[i+1]))\<close> the relation \<open><=\<close>, \<open><\<close>, \<open>>=\<close> or \<open>>\<close> is
  evaluated. \<open>spec_relation\<close> is \<open>Some True\<close> when the relation holds of the two
  projections, \<open>Some False\<close> when they violate it, and \<open>None\<close> when a projection or the
  comparison of the two is not defined. It is written without the functions of the
  module, to state what they compute.
\<close>

definition spec_key :: "keyfn option \<Rightarrow> pyval \<Rightarrow> error + pyval" where
  "spec_key key e = (case key of None \<Rightarrow> Inr e | Some k \<Rightarrow> k e)"

definition spec_relation :: "cmpop \<Rightarrow> keyfn option \<Rightarrow> pyval list \<Rightarrow> nat \<Rightarrow> bool option" where
  "spec_relation opr key lst i =
     (case spec_key key (lst ! i) of
        Inl e \<Rightarrow> None
      | Inr a \<Rightarrow>
          (case spec_key key (lst ! Suc i) of
             Inl e \<Rightarrow> None
           | Inr b \<Rightarrow> (case py_cmp opr a b of Inl e \<Rightarrow> None | Inr r \<Rightarrow> Some r)))"

text \<open>
  Two values are comparable when ordering them does not raise; which of the four
  operators is asked makes no difference (\<open>py_cmp_isl_any\<close> below).
\<close>

definition comparable :: "pyval \<Rightarrow> pyval \<Rightarrow> bool" where
  "comparable x y = (case py_cmp Le x y of Inl e \<Rightarrow> False | Inr b \<Rightarrow> True)"

fun adjacent_comparable :: "pyval list \<Rightarrow> bool" where
  "adjacent_comparable (x # y # rest) = (comparable x y \<and> adjacent_comparable (y # rest))"
| "adjacent_comparable lst = True"

text \<open>
  The backport stops before its loop when the first item is \<open>None\<close>. It yields every
  adjacent pair, as \<open>itertools.pairwise\<close> does, on all other inputs, and on a list of the
  single item \<open>None\<close>, which has no pair.
\<close>

definition yields_all_pairs :: "binding \<Rightarrow> pyval list \<Rightarrow> bool" where
  "yields_all_pairs pw lst =
     (case pw of
        Builtin \<Rightarrow> True
      | Backport \<Rightarrow> (case lst of [] \<Rightarrow> True | x # rest \<Rightarrow> x \<noteq> PNone \<or> rest = []))"

text \<open>
  Two key functions used as examples: \<open>lambda e: e["age"]\<close>, and
  \<open>lambda x: 0 if x is None else x\<close>, which gives a missing value the key 0.
\<close>

definition age_key :: keyfn where
  "age_key e = py_getitem e (PStr ''age'')"

definition none_as_zero :: keyfn where
  "none_as_zero x = Inr (if x = PNone then PInt 0 else x)"

text \<open>
  \<open>[key(e) for e in lst]\<close>: the sequence of the projections, when the key function
  returns for every element.
\<close>

fun map_key :: "keyfn \<Rightarrow> pyval list \<Rightarrow> error + pyval list" where
  "map_key k [] = Inr []"
| "map_key k (x # xs) =
     bind_err (k x) (\<lambda>kx. bind_err (map_key k xs) (\<lambda>kxs. Inr (kx # kxs)))"

subsection \<open>The checks as programs on a heap\<close>

text \<open>
  To say that a check leaves its argument unmodified, the argument has to be an object
  that could be modified. Here list objects and list iterators live in a heap, at
  addresses. \<open>iter(lst)\<close> allocates an iterator on the list at position 0; \<open>next(it)\<close>
  returns the item at the iterator's position and advances the iterator in place, or
  returns nothing when the list is exhausted. Key functions and comparisons work on
  values and do not touch the heap (the key function is assumed pure).
\<close>

datatype obj = ListObj "pyval list" | ListIter nat nat

type_synonym heap = "obj list"

definition heap_get :: "heap \<Rightarrow> nat \<Rightarrow> obj option" where
  "heap_get h a = (if a < length h then Some (h ! a) else None)"

definition py_iter :: "heap \<Rightarrow> nat \<Rightarrow> nat \<times> heap" where
  "py_iter h p = (length h, h @ [ListIter p 0])"

definition py_next :: "heap \<Rightarrow> nat \<Rightarrow> pyval option \<times> heap" where
  "py_next h q =
     (case heap_get h q of
        Some (ListIter p i) \<Rightarrow>
          (case heap_get h p of
             Some (ListObj xs) \<Rightarrow>
               if i < length xs then (Some (xs ! i), h[q := ListIter p (Suc i)]) else (None, h)
           | _ \<Rightarrow> (None, h))
      | _ \<Rightarrow> (None, h))"

text \<open>The number of items an iterator has still to yield.\<close>

definition remaining :: "heap \<Rightarrow> nat \<Rightarrow> nat" where
  "remaining h q =
     (case heap_get h q of
        Some (ListIter p i) \<Rightarrow>
          (case heap_get h p of Some (ListObj xs) \<Rightarrow> length xs - i | _ \<Rightarrow> 0)
      | _ \<Rightarrow> 0)"

text \<open>
  The loop \<open>for b in it: yield a, b; a = b\<close> of the generator, driven by \<open>all\<close>, which
  evaluates \<open>compare(key(a), key(b))\<close> on each pair as it is yielded and stops at the
  first false result or exception.
\<close>

function scan ::
  "(pyval \<times> pyval \<Rightarrow> error + bool) \<Rightarrow> heap \<Rightarrow> nat \<Rightarrow> pyval \<Rightarrow> (error + bool) \<times> heap" where
  "scan chk h q a =
     (case py_next h q of
        (None, h') \<Rightarrow> (Inr True, h')
      | (Some b, h') \<Rightarrow>
          (case chk (a, b) of
             Inl e \<Rightarrow> (Inl e, h')
           | Inr c \<Rightarrow> if c then scan chk h' q b else (Inr False, h')))"
  by pat_completeness auto
termination
  by (relation "measure (\<lambda>(chk, h, q, a). remaining h q)")
     (auto simp: remaining_def py_next_def heap_get_def nth_list_update
           split: option.splits obj.splits if_splits)

declare scan.simps [simp del]

text \<open>\<open>_pairwise\<close>, with \<open>a = next(it, None)\<close> and the test \<open>a is None\<close>.\<close>

definition pairwise_backport_st ::
  "(pyval \<times> pyval \<Rightarrow> error + bool) \<Rightarrow> heap \<Rightarrow> nat \<Rightarrow> (error + bool) \<times> heap" where
  "pairwise_backport_st chk h p =
     (let (q, h1) = py_iter h p;
          (nx, h2) = py_next h1 q;
          a = (case nx of None \<Rightarrow> PNone | Some v \<Rightarrow> v)
      in if a = PNone then (Inr True, h2) else scan chk h2 q a)"

text \<open>\<open>itertools.pairwise\<close>, which ends when its input has no first item.\<close>

definition itertools_pairwise_st ::
  "(pyval \<times> pyval \<Rightarrow> error + bool) \<Rightarrow> heap \<Rightarrow> nat \<Rightarrow> (error + bool) \<times> heap" where
  "itertools_pairwise_st chk h p =
     (let (q, h1) = py_iter h p;
          (nx, h2) = py_next h1 q
      in case nx of None \<Rightarrow> (Inr True, h2) | Some a \<Rightarrow> scan chk h2 q a)"

definition pairwise_st ::
  "binding \<Rightarrow> (pyval \<times> pyval \<Rightarrow> error + bool) \<Rightarrow> heap \<Rightarrow> nat \<Rightarrow> (error + bool) \<times> heap" where
  "pairwise_st pw = (case pw of Builtin \<Rightarrow> itertools_pairwise_st | Backport \<Rightarrow> pairwise_backport_st)"

text \<open>The two checks, given the address of the list; they return the heap they leave.\<close>

definition is_sorted_ascending_st ::
  "binding \<Rightarrow> heap \<Rightarrow> nat \<Rightarrow> bool \<Rightarrow> keyfn option \<Rightarrow> (error + bool) \<times> heap" where
  "is_sorted_ascending_st pw h lst strict key =
     pairwise_st pw (compare_keys (compare_asc strict) (default_key key)) h lst"

definition is_sorted_descending_st ::
  "binding \<Rightarrow> heap \<Rightarrow> nat \<Rightarrow> bool \<Rightarrow> keyfn option \<Rightarrow> (error + bool) \<times> heap" where
  "is_sorted_descending_st pw h lst strict key =
     pairwise_st pw (compare_keys (compare_desc strict) (default_key key)) h lst"

section \<open>Properties of the building blocks\<close>

lemma length_pairs_from: "length (pairs_from a it) = length it"
  by (induction it arbitrary: a) auto

lemma nth_pairs_from: "i < length it \<Longrightarrow> pairs_from a it ! i = ((a # it) ! i, it ! i)"
proof (induction it arbitrary: a i)
  case Nil then show ?case by simp
next
  case (Cons b it)
  then show ?case by (cases i) auto
qed

lemma pairs_from_zip: "pairs_from a it = zip (a # it) it"
  by (induction it arbitrary: a) auto

lemma itertools_pairwise_zip: "itertools_pairwise lst = zip lst (drop 1 lst)"
  by (cases lst) (auto simp: itertools_pairwise_def pairs_from_zip)

lemma length_itertools_pairwise: "length (itertools_pairwise lst) = length lst - 1"
  by (simp add: itertools_pairwise_zip)

lemma nth_itertools_pairwise:
  "Suc i < length lst \<Longrightarrow> itertools_pairwise lst ! i = (lst ! i, lst ! Suc i)"
  by (simp add: itertools_pairwise_zip)

lemma pairwise_backport_cases:
  "pairwise_backport lst =
     (case lst of [] \<Rightarrow> [] | x # rest \<Rightarrow> if x = PNone then [] else itertools_pairwise lst)"
  by (cases lst) (auto simp: pairwise_backport_def next_or_None_def itertools_pairwise_def)

lemma all_py_True_iff: "all_py f ps = Inr True \<longleftrightarrow> (\<forall>p \<in> set ps. f p = Inr True)"
  by (induction ps) (auto split: sum.splits)

lemma all_py_True_nth: "all_py f ps = Inr True \<longleftrightarrow> (\<forall>i < length ps. f (ps ! i) = Inr True)"
  by (simp add: all_py_True_iff all_set_conv_all_nth)

lemma all_py_stop_iff:
  "r \<noteq> Inr True \<Longrightarrow>
   all_py f ps = r \<longleftrightarrow> (\<exists>i < length ps. f (ps ! i) = r \<and> (\<forall>j < i. f (ps ! j) = Inr True))"
proof (induction ps)
  case Nil then show ?case by auto
next
  case (Cons p ps)
  show ?case
  proof (cases "f p = Inr True")
    case True
    have "(\<exists>i < length (p # ps). f ((p # ps) ! i) = r \<and> (\<forall>j < i. f ((p # ps) ! j) = Inr True))
          \<longleftrightarrow> (\<exists>i < length ps. f (ps ! i) = r \<and> (\<forall>j < i. f (ps ! j) = Inr True))"
      (is "?L \<longleftrightarrow> ?R")
    proof
      assume ?L
      then obtain i where i: "i < length (p # ps)" "f ((p # ps) ! i) = r"
        "\<forall>j < i. f ((p # ps) ! j) = Inr True" by blast
      with True Cons.prems obtain k where k: "i = Suc k" by (cases i) auto
      have "\<forall>j < k. f (ps ! j) = Inr True"
      proof (intro allI impI)
        fix j assume "j < k"
        then have "Suc j < i" using k by simp
        with i(3) have "f ((p # ps) ! Suc j) = Inr True" by blast
        then show "f (ps ! j) = Inr True" by simp
      qed
      with i k show ?R by auto
    next
      assume ?R
      then obtain i where i: "i < length ps" "f (ps ! i) = r"
        "\<forall>j < i. f (ps ! j) = Inr True" by blast
      have "\<forall>j < Suc i. f ((p # ps) ! j) = Inr True"
      proof (intro allI impI)
        fix j assume "j < Suc i"
        then show "f ((p # ps) ! j) = Inr True" using True i(3) by (cases j) auto
      qed
      with i show ?L by (intro exI[of _ "Suc i"]) auto
    qed
    with True Cons show ?thesis by simp
  next
    case False
    then have "all_py f (p # ps) = f p"
      by (cases "f p") (auto split: sum.splits)
    moreover have "f p = r \<longleftrightarrow>
       (\<exists>i < length (p # ps). f ((p # ps) ! i) = r \<and> (\<forall>j < i. f ((p # ps) ! j) = Inr True))"
    proof
      assume "f p = r" then show "\<exists>i < length (p # ps). f ((p # ps) ! i) = r \<and> (\<forall>j < i. f ((p # ps) ! j) = Inr True)"
        by (intro exI[of _ 0]) auto
    next
      assume "\<exists>i < length (p # ps). f ((p # ps) ! i) = r \<and> (\<forall>j < i. f ((p # ps) ! j) = Inr True)"
      then obtain i where i: "f ((p # ps) ! i) = r" "\<forall>j < i. f ((p # ps) ! j) = Inr True" by blast
      show "f p = r"
      proof (cases i)
        case 0 with i show ?thesis by simp
      next
        case (Suc k)
        with i(2) have "f ((p # ps) ! 0) = Inr True" by blast
        with False show ?thesis by simp
      qed
    qed
    ultimately show ?thesis by simp
  qed
qed

lemma length_le_1_pairwise: "length lst \<le> 1 \<Longrightarrow> pairwise_py pw lst = []"
  by (cases lst; cases pw)
     (auto simp: pairwise_py_def itertools_pairwise_def pairwise_backport_def next_or_None_def)

lemma str_lt_irrefl: "\<not> str_lt a a"
  by (induction a) auto

lemma int_holds_mirrored: "int_holds (mirrored opr) b a = int_holds opr a b"
  by (cases opr) auto

lemma str_holds_mirrored: "str_holds (mirrored opr) b a = str_holds opr a b"
  by (cases opr) auto

lemma py_cmp_mirrored: "py_cmp (mirrored opr) y x = py_cmp opr x y"
  and list_cmp_mirrored: "list_cmp (mirrored opr) ys xs = list_cmp opr xs ys"
  by (induction opr x y and opr xs ys rule: py_cmp_list_cmp.induct)
     (simp_all add: int_holds_mirrored str_holds_mirrored)

lemma int_holds_relaxed: "int_holds opr a b \<Longrightarrow> int_holds (relaxed opr) a b"
  by (cases opr) auto

lemma str_holds_relaxed: "str_holds opr a b \<Longrightarrow> str_holds (relaxed opr) a b"
  by (cases opr) auto

lemma py_cmp_relaxed: "py_cmp opr x y = Inr True \<Longrightarrow> py_cmp (relaxed opr) x y = Inr True"
  and list_cmp_relaxed: "list_cmp opr xs ys = Inr True \<Longrightarrow> list_cmp (relaxed opr) xs ys = Inr True"
  by (induction opr x y and opr xs ys rule: py_cmp_list_cmp.induct)
     (simp_all add: int_holds_relaxed str_holds_relaxed split: if_splits)

lemma py_cmp_isl_any: "isl (py_cmp opr x y) = isl (py_cmp opr' x y)"
  and list_cmp_isl_any: "isl (list_cmp opr xs ys) = isl (list_cmp opr' xs ys)"
  by (induction opr x y and opr xs ys rule: py_cmp_list_cmp.induct) simp_all

lemma py_cmp_TypeError: "py_cmp opr x y = Inl e \<Longrightarrow> e = TypeError"
  and list_cmp_TypeError: "list_cmp opr xs ys = Inl e \<Longrightarrow> e = TypeError"
  by (induction opr x y and opr xs ys rule: py_cmp_list_cmp.induct)
     (simp_all split: if_splits)

lemma list_cmp_same: "list_cmp opr xs xs = Inr (int_holds opr 0 0)"
  by (induction xs) auto

lemma py_cmp_same_strict:
  "opr = Lt \<or> opr = Gt \<Longrightarrow> py_cmp opr x x \<noteq> Inr True"
  by (cases x) (auto simp: str_lt_irrefl list_cmp_same)

lemma py_cmp_None_left: "py_cmp opr PNone y = Inl TypeError"
  by simp

lemma py_cmp_None_right: "py_cmp opr x PNone = Inl TypeError"
  by (cases x) simp_all

lemma all_py_pairwise_True:
  "all_py f (itertools_pairwise lst) = Inr True \<longleftrightarrow>
     (\<forall>i. Suc i < length lst \<longrightarrow> f (lst ! i, lst ! Suc i) = Inr True)"
proof -
  have "(\<forall>i < length lst - 1. f (itertools_pairwise lst ! i) = Inr True) \<longleftrightarrow>
        (\<forall>i. Suc i < length lst \<longrightarrow> f (lst ! i, lst ! Suc i) = Inr True)"
    by (auto simp: nth_itertools_pairwise less_diff_conv)
  then show ?thesis
    by (simp add: all_py_True_nth length_itertools_pairwise)
qed

lemma all_py_pairwise_stop:
  assumes "r \<noteq> Inr True"
  shows "all_py f (itertools_pairwise lst) = r \<longleftrightarrow>
     (\<exists>i. Suc i < length lst \<and> f (lst ! i, lst ! Suc i) = r \<and>
          (\<forall>j < i. f (lst ! j, lst ! Suc j) = Inr True))"
proof -
  have "(\<exists>i < length lst - 1. f (itertools_pairwise lst ! i) = r \<and>
            (\<forall>j < i. f (itertools_pairwise lst ! j) = Inr True)) \<longleftrightarrow>
        (\<exists>i. Suc i < length lst \<and> f (lst ! i, lst ! Suc i) = r \<and>
            (\<forall>j < i. f (lst ! j, lst ! Suc j) = Inr True))"
    (is "?L \<longleftrightarrow> ?R")
  proof
    assume ?L
    then obtain i where i: "i < length lst - 1" "f (itertools_pairwise lst ! i) = r"
      "\<forall>j < i. f (itertools_pairwise lst ! j) = Inr True" by blast
    from i(1) have si: "Suc i < length lst" by simp
    have "\<forall>j < i. f (lst ! j, lst ! Suc j) = Inr True"
    proof (intro allI impI)
      fix j assume ji: "j < i"
      with si have "Suc j < length lst" by simp
      with i(3) ji show "f (lst ! j, lst ! Suc j) = Inr True"
        by (metis nth_itertools_pairwise)
    qed
    with si i(2) show ?R by (auto simp: nth_itertools_pairwise)
  next
    assume ?R
    then obtain i where i: "Suc i < length lst" "f (lst ! i, lst ! Suc i) = r"
      "\<forall>j < i. f (lst ! j, lst ! Suc j) = Inr True" by blast
    have "\<forall>j < i. f (itertools_pairwise lst ! j) = Inr True"
    proof (intro allI impI)
      fix j assume ji: "j < i"
      with i(1) have "Suc j < length lst" by simp
      with i(3) ji show "f (itertools_pairwise lst ! j) = Inr True"
        by (simp add: nth_itertools_pairwise)
    qed
    moreover from i(1) have "i < length lst - 1" by simp
    ultimately show ?L using i by (auto simp: nth_itertools_pairwise)
  qed
  with assms show ?thesis
    by (simp add: all_py_stop_iff length_itertools_pairwise)
qed

lemma yields_all_pairs_eq:
  "yields_all_pairs pw lst \<Longrightarrow> pairwise_py pw lst = itertools_pairwise lst"
  by (cases pw; cases lst)
     (auto simp: yields_all_pairs_def pairwise_py_def pairwise_backport_cases itertools_pairwise_def)

lemma asc_scan:
  "yields_all_pairs pw lst \<Longrightarrow>
   is_sorted_ascending pw lst strict key =
     all_py (compare_keys (compare_asc strict) (default_key key)) (itertools_pairwise lst)"
  by (simp add: is_sorted_ascending_def yields_all_pairs_eq)

lemma desc_scan:
  "yields_all_pairs pw lst \<Longrightarrow>
   is_sorted_descending pw lst strict key =
     all_py (compare_keys (compare_desc strict) (default_key key)) (itertools_pairwise lst)"
  by (simp add: is_sorted_descending_def yields_all_pairs_eq)

lemma asc_True_iff:
  "yields_all_pairs pw lst \<Longrightarrow>
   is_sorted_ascending pw lst strict key = Inr True \<longleftrightarrow>
     (\<forall>i. Suc i < length lst \<longrightarrow> asc_at strict key lst i = Inr True)"
  by (simp add: asc_scan all_py_pairwise_True asc_at_def)

lemma desc_True_iff:
  "yields_all_pairs pw lst \<Longrightarrow>
   is_sorted_descending pw lst strict key = Inr True \<longleftrightarrow>
     (\<forall>i. Suc i < length lst \<longrightarrow> desc_at strict key lst i = Inr True)"
  by (simp add: desc_scan all_py_pairwise_True desc_at_def)

lemma asc_stop_iff:
  "yields_all_pairs pw lst \<Longrightarrow> r \<noteq> Inr True \<Longrightarrow>
   is_sorted_ascending pw lst strict key = r \<longleftrightarrow>
     (\<exists>i. Suc i < length lst \<and> asc_at strict key lst i = r \<and>
          (\<forall>j < i. asc_at strict key lst j = Inr True))"
  by (simp add: asc_scan all_py_pairwise_stop asc_at_def)

lemma desc_stop_iff:
  "yields_all_pairs pw lst \<Longrightarrow> r \<noteq> Inr True \<Longrightarrow>
   is_sorted_descending pw lst strict key = r \<longleftrightarrow>
     (\<exists>i. Suc i < length lst \<and> desc_at strict key lst i = r \<and>
          (\<forall>j < i. desc_at strict key lst j = Inr True))"
  by (simp add: desc_scan all_py_pairwise_stop desc_at_def)

lemma bind_err_Inr [simp]: "bind_err (Inr v) f = f v"
  by (simp add: bind_err_def)

lemma bind_err_Inl [simp]: "bind_err (Inl e) f = Inl e"
  by (simp add: bind_err_def)

lemma compare_keys_no_key:
  "compare_keys compare (default_key None) = (\<lambda>(x, y). compare x y)"
  by (simp add: compare_keys_def default_key_def)

lemma asc_at_no_key: "asc_at strict None lst i = compare_asc strict (lst ! i) (lst ! Suc i)"
  by (simp add: asc_at_def compare_keys_no_key)

lemma desc_at_no_key: "desc_at strict None lst i = compare_desc strict (lst ! i) (lst ! Suc i)"
  by (simp add: desc_at_def compare_keys_no_key)

lemma comparable_iff: "comparable x y \<longleftrightarrow> \<not> isl (py_cmp opr x y)"
proof -
  have "comparable x y \<longleftrightarrow> \<not> isl (py_cmp Le x y)"
    by (simp add: comparable_def split: sum.splits)
  then show ?thesis using py_cmp_isl_any [of Le x y opr] by simp
qed

lemma comparable_sym: "comparable x y \<longleftrightarrow> comparable y x"
  using comparable_iff [of x y Le] comparable_iff [of y x Ge] py_cmp_mirrored [of Le y x]
  by simp

lemma comparable_asc: "comparable x y \<longleftrightarrow> \<not> isl (compare_asc strict x y)"
  by (simp add: compare_asc_def comparable_iff [symmetric])

lemma comparable_desc: "comparable x y \<longleftrightarrow> \<not> isl (compare_desc strict x y)"
  by (simp add: compare_desc_def comparable_iff [symmetric])

lemma adjacent_comparable_nth:
  "adjacent_comparable lst \<longleftrightarrow>
     (\<forall>i. Suc i < length lst \<longrightarrow> comparable (lst ! i) (lst ! Suc i))"
proof (induction lst rule: adjacent_comparable.induct)
  case (1 x y rest)
  have "(\<forall>i. Suc i < length (x # y # rest) \<longrightarrow>
            comparable ((x # y # rest) ! i) ((x # y # rest) ! Suc i)) \<longleftrightarrow>
        comparable x y \<and>
        (\<forall>i. Suc i < length (y # rest) \<longrightarrow> comparable ((y # rest) ! i) ((y # rest) ! Suc i))"
    (is "?L \<longleftrightarrow> ?x \<and> ?R")
  proof (intro iffI conjI)
    assume l: ?L
    from l [rule_format, of 0] show ?x by simp
    show ?R
    proof (intro allI impI)
      fix i assume "Suc i < length (y # rest)"
      with l [rule_format, of "Suc i"]
      show "comparable ((y # rest) ! i) ((y # rest) ! Suc i)" by simp
    qed
  next
    assume r: "?x \<and> ?R"
    show ?L
    proof (intro allI impI)
      fix i assume i: "Suc i < length (x # y # rest)"
      show "comparable ((x # y # rest) ! i) ((x # y # rest) ! Suc i)"
      proof (cases i)
        case 0 with r show ?thesis by simp
      next
        case (Suc k)
        with i r show ?thesis by simp
      qed
    qed
  qed
  with 1 show ?case by simp
qed simp_all

lemma comparable_not_None: "comparable x y \<Longrightarrow> x \<noteq> PNone \<and> y \<noteq> PNone"
  by (cases x; cases y) (auto simp: comparable_def)

lemma adjacent_comparable_yields:
  "adjacent_comparable lst \<Longrightarrow> yields_all_pairs pw lst"
proof (cases lst)
  case Nil then show ?thesis by (cases pw) (simp_all add: yields_all_pairs_def)
next
  case (Cons x rest)
  assume a: "adjacent_comparable lst"
  show ?thesis
  proof (cases rest)
    case Nil with Cons show ?thesis by (cases pw) (simp_all add: yields_all_pairs_def)
  next
    case (Cons y more)
    with a \<open>lst = x # rest\<close> have "comparable x y" by simp
    then have "x \<noteq> PNone" using comparable_not_None by blast
    with \<open>lst = x # rest\<close> show ?thesis by (cases pw) (simp_all add: yields_all_pairs_def)
  qed
qed

lemma adjacent_comparable_rev:
  "adjacent_comparable lst \<Longrightarrow> adjacent_comparable (rev lst)"
proof -
  assume a: "adjacent_comparable lst"
  have "\<forall>i. Suc i < length (rev lst) \<longrightarrow> comparable (rev lst ! i) (rev lst ! Suc i)"
  proof (intro allI impI)
    fix i assume i: "Suc i < length (rev lst)"
    then have n: "Suc i < length lst" by simp
    define k where "k = length lst - Suc (Suc i)"
    have k: "Suc k < length lst" "length lst - Suc i = Suc k" using n by (auto simp: k_def)
    have "rev lst ! i = lst ! Suc k" using n k by (simp add: rev_nth)
    moreover have "rev lst ! Suc i = lst ! k" using n by (simp add: rev_nth k_def)
    moreover have "comparable (lst ! k) (lst ! Suc k)"
      using a k(1) by (simp add: adjacent_comparable_nth)
    ultimately show "comparable (rev lst ! i) (rev lst ! Suc i)"
      using comparable_sym by simp
  qed
  then show ?thesis by (simp add: adjacent_comparable_nth)
qed

lemma asc_returns_bool:
  assumes "adjacent_comparable lst"
  shows "\<exists>b. is_sorted_ascending pw lst strict None = Inr b"
proof (cases "is_sorted_ascending pw lst strict None")
  case (Inl e)
  then obtain i where "Suc i < length lst" "asc_at strict None lst i = Inl e"
    using asc_stop_iff [OF adjacent_comparable_yields [OF assms], where r = "Inl e"]
    by auto
  with assms have False
    using comparable_asc [of "lst ! i" "lst ! Suc i" strict]
    by (auto simp: adjacent_comparable_nth asc_at_no_key)
  then show ?thesis ..
qed simp

lemma desc_returns_bool:
  assumes "adjacent_comparable lst"
  shows "\<exists>b. is_sorted_descending pw lst strict None = Inr b"
proof (cases "is_sorted_descending pw lst strict None")
  case (Inl e)
  then obtain i where "Suc i < length lst" "desc_at strict None lst i = Inl e"
    using desc_stop_iff [OF adjacent_comparable_yields [OF assms], where r = "Inl e"]
    by auto
  with assms have False
    using comparable_desc [of "lst ! i" "lst ! Suc i" strict]
    by (auto simp: adjacent_comparable_nth desc_at_no_key)
  then show ?thesis ..
qed simp

lemma compare_desc_mirror: "compare_desc strict y x = compare_asc strict x y"
  using py_cmp_mirrored [of Lt y x] py_cmp_mirrored [of Le y x]
  by (simp add: compare_desc_def compare_asc_def)

lemma desc_rev_True_iff:
  "(\<forall>i. Suc i < length (rev lst) \<longrightarrow> desc_at strict None (rev lst) i = Inr True) \<longleftrightarrow>
   (\<forall>i. Suc i < length lst \<longrightarrow> asc_at strict None lst i = Inr True)"
  (is "?L \<longleftrightarrow> ?R")
proof
  assume l: ?L
  show ?R
  proof (intro allI impI)
    fix i assume i: "Suc i < length lst"
    define k where "k = length lst - Suc (Suc i)"
    have k: "Suc k < length (rev lst)" using i by (simp add: k_def)
    have "rev lst ! k = lst ! Suc i" "rev lst ! Suc k = lst ! i"
      using i by (simp_all add: rev_nth k_def Suc_diff_Suc)
    with l [rule_format, OF k] show "asc_at strict None lst i = Inr True"
      by (simp add: asc_at_no_key desc_at_no_key compare_desc_mirror)
  qed
next
  assume r: ?R
  show ?L
  proof (intro allI impI)
    fix i assume i: "Suc i < length (rev lst)"
    define k where "k = length lst - Suc (Suc i)"
    have k: "Suc k < length lst" using i by (simp add: k_def)
    have "rev lst ! i = lst ! Suc k" "rev lst ! Suc i = lst ! k"
      using i by (simp_all add: rev_nth k_def Suc_diff_Suc)
    with r [rule_format, OF k] show "desc_at strict None (rev lst) i = Inr True"
      by (simp add: asc_at_no_key desc_at_no_key compare_desc_mirror)
  qed
qed

lemmas eval_defs =
  is_sorted_ascending_def is_sorted_descending_def pairwise_py_def pairwise_backport_def
  next_or_None_def itertools_pairwise_def compare_keys_def default_key_def
  compare_asc_def compare_desc_def is_sorted_ascending_zip_def is_sorted_ascending_loop_def
  is_sorted_ascending_range_def py_range_def compare_at_def item_def asc_at_def desc_at_def

lemma all_py_pairwise_False_total:
  assumes "\<forall>i. Suc i < length lst \<longrightarrow> \<not> isl (f (lst ! i, lst ! Suc i))"
  shows "all_py f (itertools_pairwise lst) = Inr False \<longleftrightarrow>
     (\<exists>i. Suc i < length lst \<and> f (lst ! i, lst ! Suc i) = Inr False)"
proof
  assume "all_py f (itertools_pairwise lst) = Inr False"
  then show "\<exists>i. Suc i < length lst \<and> f (lst ! i, lst ! Suc i) = Inr False"
    using all_py_pairwise_stop [of "Inr False" f lst] by auto
next
  assume "\<exists>i. Suc i < length lst \<and> f (lst ! i, lst ! Suc i) = Inr False"
  then have nt: "all_py f (itertools_pairwise lst) \<noteq> Inr True"
    by (auto simp: all_py_pairwise_True)
  show "all_py f (itertools_pairwise lst) = Inr False"
  proof (cases "all_py f (itertools_pairwise lst)")
    case (Inl e)
    then obtain i where "Suc i < length lst" "f (lst ! i, lst ! Suc i) = Inl e"
      using all_py_pairwise_stop [of "Inl e" f lst] by auto
    with assms show ?thesis by auto
  next
    case (Inr b)
    with nt show ?thesis by (cases b) auto
  qed
qed

lemma compare_keys_relaxed:
  assumes "compare_keys (compare_asc True) k p = Inr True"
  shows "compare_keys (compare_asc False) k p = Inr True"
proof -
  obtain x y where p: "p = (x, y)" by (cases p)
  from assms p obtain kx where kx: "k x = Inr kx"
    by (cases "k x") (auto simp: compare_keys_def)
  from assms p kx obtain ky where ky: "k y = Inr ky"
    by (cases "k y") (auto simp: compare_keys_def)
  from assms p kx ky have "py_cmp Lt kx ky = Inr True"
    by (simp add: compare_keys_def compare_asc_def)
  then have "py_cmp Le kx ky = Inr True" using py_cmp_relaxed [of Lt kx ky] by simp
  with p kx ky show ?thesis by (simp add: compare_keys_def compare_asc_def)
qed

lemma compare_keys_relaxed_desc:
  assumes "compare_keys (compare_desc True) k p = Inr True"
  shows "compare_keys (compare_desc False) k p = Inr True"
proof -
  obtain x y where p: "p = (x, y)" by (cases p)
  from assms p obtain kx where kx: "k x = Inr kx"
    by (cases "k x") (auto simp: compare_keys_def)
  from assms p kx obtain ky where ky: "k y = Inr ky"
    by (cases "k y") (auto simp: compare_keys_def)
  from assms p kx ky have "py_cmp Gt kx ky = Inr True"
    by (simp add: compare_keys_def compare_desc_def)
  then have "py_cmp Ge kx ky = Inr True" using py_cmp_relaxed [of Gt kx ky] by simp
  with p kx ky show ?thesis by (simp add: compare_keys_def compare_desc_def)
qed

lemma for_loop_all_py: "for_loop strict lst rng = all_py (compare_at strict lst) rng"
  by (induction rng) (auto split: sum.splits)

lemma all_py_map: "all_py f (map g xs) = all_py (\<lambda>x. f (g x)) xs"
  by (induction xs) (auto split: sum.splits)

lemma all_py_cong_set: "(\<And>x. x \<in> set xs \<Longrightarrow> f x = g x) \<Longrightarrow> all_py f xs = all_py g xs"
  by (induction xs) (auto split: sum.splits)

lemma zip_drop_as_map:
  "zip lst (drop 1 lst) = map (\<lambda>i. (lst ! i, lst ! (i + 1))) [0 ..< length lst - 1]"
  by (rule nth_equalityI) auto

lemma range_eq_zip: "is_sorted_ascending_range lst strict = is_sorted_ascending_zip lst strict"
proof -
  have "all_py (compare_at strict lst) [0 ..< length lst - 1] =
        all_py (\<lambda>i. compare_asc strict (lst ! i) (lst ! (i + 1))) [0 ..< length lst - 1]"
    by (rule all_py_cong_set) (auto simp: compare_at_def item_def)
  also have "\<dots> = all_py (\<lambda>(x, y). compare_asc strict x y) (zip lst (drop 1 lst))"
    by (subst zip_drop_as_map) (simp add: all_py_map)
  finally show ?thesis
    by (simp add: is_sorted_ascending_range_def is_sorted_ascending_zip_def py_range_def
        nat_diff_distrib')
qed

lemma loop_eq_range: "is_sorted_ascending_loop lst strict = is_sorted_ascending_range lst strict"
  by (simp add: is_sorted_ascending_loop_def is_sorted_ascending_range_def for_loop_all_py)

lemma zip_eq_primary:
  "yields_all_pairs pw lst \<Longrightarrow>
   is_sorted_ascending_zip lst strict = is_sorted_ascending pw lst strict None"
  by (simp add: asc_scan is_sorted_ascending_zip_def itertools_pairwise_zip compare_keys_no_key)

lemma variants_agree:
  "yields_all_pairs pw lst \<Longrightarrow>
   is_sorted_ascending_zip lst strict = is_sorted_ascending pw lst strict None \<and>
   is_sorted_ascending_loop lst strict = is_sorted_ascending pw lst strict None \<and>
   is_sorted_ascending_range lst strict = is_sorted_ascending pw lst strict None"
  by (simp add: loop_eq_range range_eq_zip zip_eq_primary)

lemma variants_never_IndexError:
  "is_sorted_ascending_loop lst strict \<noteq> Inl IndexError \<and>
   is_sorted_ascending_range lst strict \<noteq> Inl IndexError"
proof -
  have "is_sorted_ascending_zip lst strict \<noteq> Inl IndexError"
  proof
    assume "is_sorted_ascending_zip lst strict = Inl IndexError"
    then have "is_sorted_ascending Builtin lst strict None = Inl IndexError"
      using zip_eq_primary [of Builtin lst strict] by (simp add: yields_all_pairs_def)
    then obtain i where "asc_at strict None lst i = Inl IndexError"
      using asc_stop_iff [of Builtin lst "Inl IndexError" strict None]
      by (auto simp: yields_all_pairs_def)
    then show False
      using py_cmp_TypeError [of _ "lst ! i" "lst ! Suc i" IndexError]
      by (auto simp: asc_at_no_key compare_asc_def split: if_splits)
  qed
  then show ?thesis by (simp add: loop_eq_range range_eq_zip)
qed

lemma map_key_total: "map_key (\<lambda>x. Inr (f x)) lst = Inr (map f lst)"
  by (induction lst) auto

lemma map_key_Cons:
  "map_key k (x # xs) = Inr ks \<longleftrightarrow>
     (\<exists>kx kxs. k x = Inr kx \<and> map_key k xs = Inr kxs \<and> ks = kx # kxs)"
  by (cases "k x"; cases "map_key k xs") auto

lemma all_py_pairs_from_keys:
  "k a = Inr ka \<Longrightarrow> map_key k it = Inr kit \<Longrightarrow>
   all_py (compare_keys cmp k) (pairs_from a it) =
   all_py (\<lambda>(x, y). cmp x y) (pairs_from ka kit)"
proof (induction it arbitrary: a ka kit)
  case Nil
  then show ?case by simp
next
  case (Cons b it)
  from Cons.prems(2) obtain kb kit' where
    kb: "k b = Inr kb" "map_key k it = Inr kit'" "kit = kb # kit'"
    using map_key_Cons [of k b it kit] by blast
  have step: "compare_keys cmp k (a, b) = cmp ka kb"
    using Cons.prems(1) kb(1) by (simp add: compare_keys_def)
  from Cons.IH [OF kb(1) kb(2)] step kb(3) show ?case by (simp split: sum.splits)
qed

lemma key_as_mapped_sequence:
  assumes "yields_all_pairs pw lst" and "map_key k lst = Inr ks" and "yields_all_pairs pw ks"
  shows "is_sorted_ascending pw lst strict (Some k) = is_sorted_ascending pw ks strict None"
proof (cases lst)
  case Nil
  with assms(2) show ?thesis by (simp add: eval_defs split: binding.splits)
next
  case (Cons a it)
  with assms(2) obtain ka kit where
    k: "k a = Inr ka" "map_key k it = Inr kit" "ks = ka # kit"
    using map_key_Cons [of k a it ks] by blast
  have "all_py (compare_keys (compare_asc strict) k) (pairs_from a it) =
        all_py (\<lambda>(x, y). compare_asc strict x y) (pairs_from ka kit)"
    by (rule all_py_pairs_from_keys [OF k(1) k(2)])
  moreover have "is_sorted_ascending pw lst strict (Some k) =
      all_py (compare_keys (compare_asc strict) k) (itertools_pairwise lst)"
    using asc_scan [OF assms(1), of strict "Some k"] by (simp add: default_key_def)
  moreover have "is_sorted_ascending pw ks strict None =
      all_py (\<lambda>(x, y). compare_asc strict x y) (itertools_pairwise ks)"
    using asc_scan [OF assms(3), of strict None] by (simp add: compare_keys_no_key)
  ultimately show ?thesis using Cons k(3) by (simp add: itertools_pairwise_def)
qed

lemma age_example:
  "is_sorted_ascending pw
     [PDict (fmupd ''age'' (PInt 3) fmempty), PDict (fmupd ''age'' (PInt 5) fmempty)]
     False (Some age_key) = Inr True"
  by (cases pw) (simp_all add: eval_defs age_key_def)

lemma scan_refines:
  "heap_get h q = Some (ListIter p i) \<Longrightarrow> heap_get h p = Some (ListObj xs) \<Longrightarrow>
   fst (scan chk h q a) = all_py chk (pairs_from a (drop i xs)) \<and>
   (\<exists>j. snd (scan chk h q a) = h[q := ListIter p j])"
proof (induction chk h q a arbitrary: i rule: scan.induct)
  case (1 chk h q a)
  from "1.prems" have pq: "p \<noteq> q" by auto
  from "1.prems" have ql: "q < length h" by (auto simp: heap_get_def split: if_splits)
  show ?case
  proof (cases "i < length xs")
    case False
    with "1.prems" have "py_next h q = (None, h)" by (simp add: py_next_def)
    moreover have "h = h[q := ListIter p i]"
    proof -
      from "1.prems"(1) have "h ! q = ListIter p i"
        by (auto simp: heap_get_def split: if_splits)
      then show ?thesis using list_update_id [of h q] by simp
    qed
    ultimately show ?thesis using False by (subst (1 2) scan.simps) auto
  next
    case True
    define h' where "h' = h[q := ListIter p (Suc i)]"
    from True "1.prems" have nx: "py_next h q = (Some (xs ! i), h')"
      by (simp add: py_next_def h'_def)
    have g: "heap_get h' q = Some (ListIter p (Suc i))" "heap_get h' p = Some (ListObj xs)"
      using "1.prems" pq ql by (auto simp: heap_get_def h'_def split: if_splits)
    have d: "drop i xs = xs ! i # drop (Suc i) xs"
      using True by (simp add: Cons_nth_drop_Suc)
    show ?thesis
    proof (cases "chk (a, xs ! i)")
      case (Inl e)
      with nx d show ?thesis by (subst (1 2) scan.simps) (auto simp: h'_def)
    next
      case (Inr c)
      show ?thesis
      proof (cases c)
        case False
        with Inr nx d show ?thesis by (subst (1 2) scan.simps) (auto simp: h'_def)
      next
        case True
        from "1.IH" [OF nx [symmetric] refl Inr True g]
        have ih: "fst (scan chk h' q (xs ! i)) = all_py chk (pairs_from (xs ! i) (drop (Suc i) xs))"
          "\<exists>j. snd (scan chk h' q (xs ! i)) = h'[q := ListIter p j]" by auto
        from ih(2) have "\<exists>j. snd (scan chk h' q (xs ! i)) = h[q := ListIter p j]"
          by (simp add: h'_def)
        with ih(1) Inr True nx d show ?thesis by (subst (1 2) scan.simps) auto
      qed
    qed
  qed
qed

lemma heap_get_append_old: "a < length h \<Longrightarrow> heap_get (h @ [x]) a = heap_get h a"
  by (simp add: heap_get_def nth_append)

lemma heap_get_update_other:
  "a < length h \<Longrightarrow> heap_get ((h @ [x])[length h := y]) a = heap_get h a"
  by (simp add: heap_get_def nth_append)

lemma pairwise_st_refines:
  assumes "heap_get h p = Some (ListObj xs)"
  shows "fst (pairwise_st pw chk h p) = all_py chk (pairwise_py pw xs) \<and>
         (\<forall>a < length h. heap_get (snd (pairwise_st pw chk h p)) a = heap_get h a)"
proof -
  define q where "q = length h"
  define h1 where "h1 = h @ [ListIter p 0]"
  from assms have pl: "p < length h" by (auto simp: heap_get_def split: if_splits)
  have it: "py_iter h p = (q, h1)" by (simp add: py_iter_def q_def h1_def)
  have gq: "heap_get h1 q = Some (ListIter p 0)" by (simp add: heap_get_def q_def h1_def)
  have gp: "heap_get h1 p = Some (ListObj xs)"
    using assms pl by (simp add: h1_def heap_get_append_old)
  show ?thesis
  proof (cases xs)
    case Nil
    with gq gp have "py_next h1 q = (None, h1)" by (simp add: py_next_def)
    with it Nil show ?thesis
      by (cases pw)
         (simp_all add: pairwise_st_def pairwise_backport_st_def itertools_pairwise_st_def
            pairwise_py_def pairwise_backport_def itertools_pairwise_def next_or_None_def
            h1_def heap_get_append_old)
  next
    case (Cons x rest)
    define h2 where "h2 = h1[q := ListIter p (Suc 0)]"
    from Cons gq gp have nx: "py_next h1 q = (Some x, h2)"
      by (simp add: py_next_def h2_def)
    have old2: "\<forall>a < length h. heap_get h2 a = heap_get h a"
      by (simp add: h2_def h1_def q_def heap_get_update_other heap_get_append_old)
    have gq2: "heap_get h2 q = Some (ListIter p (Suc 0))"
      by (simp add: heap_get_def h2_def h1_def q_def)
    have gp2: "heap_get h2 p = Some (ListObj xs)"
      using old2 pl assms by simp
    from scan_refines [OF gq2 gp2, of chk x] obtain j where
      sc: "fst (scan chk h2 q x) = all_py chk (pairs_from x (drop (Suc 0) xs))"
          "snd (scan chk h2 q x) = h2[q := ListIter p j]" by blast
    have old3: "\<forall>a < length h. heap_get (snd (scan chk h2 q x)) a = heap_get h a"
      unfolding sc(2)
      by (simp add: h2_def h1_def q_def heap_get_update_other heap_get_append_old)
    from sc(1) Cons have res: "fst (scan chk h2 q x) = all_py chk (pairs_from x rest)" by simp
    show ?thesis
    proof (cases pw)
      case Builtin
      with it nx res old3 Cons show ?thesis
        by (simp add: pairwise_st_def itertools_pairwise_st_def pairwise_py_def
            itertools_pairwise_def)
    next
      case Backport
      with it nx res old3 old2 Cons show ?thesis
        by (simp add: pairwise_st_def pairwise_backport_st_def pairwise_py_def
            pairwise_backport_def next_or_None_def)
    qed
  qed
qed

lemma asc_at_spec:
  "asc_at strict key lst i = Inr r \<longleftrightarrow>
     spec_relation (if strict then Lt else Le) key lst i = Some r"
  by (cases key)
     (auto simp: asc_at_def compare_keys_def default_key_def compare_asc_def
        spec_relation_def spec_key_def bind_err_def split: sum.splits)

lemma desc_at_spec:
  "desc_at strict key lst i = Inr r \<longleftrightarrow>
     spec_relation (if strict then Gt else Ge) key lst i = Some r"
  by (cases key)
     (auto simp: desc_at_def compare_keys_def default_key_def compare_desc_def
        spec_relation_def spec_key_def bind_err_def split: sum.splits)

lemma asc_at_spec_raises:
  "isl (asc_at strict key lst i) \<longleftrightarrow>
     spec_relation (if strict then Lt else Le) key lst i = None"
proof (cases "asc_at strict key lst i")
  case (Inl e)
  then have "spec_relation (if strict then Lt else Le) key lst i \<noteq> Some r" for r
    using asc_at_spec [of strict key lst i r] by simp
  then have "spec_relation (if strict then Lt else Le) key lst i = None"
    by (cases "spec_relation (if strict then Lt else Le) key lst i") auto
  with Inl show ?thesis by simp
next
  case (Inr r)
  then have "spec_relation (if strict then Lt else Le) key lst i = Some r"
    using asc_at_spec [of strict key lst i r] by simp
  with Inr show ?thesis by simp
qed

lemma desc_at_spec_raises:
  "isl (desc_at strict key lst i) \<longleftrightarrow>
     spec_relation (if strict then Gt else Ge) key lst i = None"
proof (cases "desc_at strict key lst i")
  case (Inl e)
  then have "spec_relation (if strict then Gt else Ge) key lst i \<noteq> Some r" for r
    using desc_at_spec [of strict key lst i r] by simp
  then have "spec_relation (if strict then Gt else Ge) key lst i = None"
    by (cases "spec_relation (if strict then Gt else Ge) key lst i") auto
  with Inl show ?thesis by simp
next
  case (Inr r)
  then have "spec_relation (if strict then Gt else Ge) key lst i = Some r"
    using desc_at_spec [of strict key lst i r] by simp
  with Inr show ?thesis by simp
qed

section \<open>Sequences of length 0 or 1\<close>

text \<open>
  C5: for every sequence of length 0 or 1, \<open>is_sorted_ascending\<close> and
  \<open>is_sorted_descending\<close> both return \<open>True\<close>, whatever the strict flag and the key
  function are (and whichever \<open>pairwise\<close> is in use): there is no pair to compare, and
  the key function is never called.
\<close>

theorem short_sequences_sorted:
  "length lst \<le> 1 \<Longrightarrow>
     is_sorted_ascending pw lst strict key = Inr True \<and>
     is_sorted_descending pw lst strict key = Inr True"
  by (simp add: is_sorted_ascending_def is_sorted_descending_def length_le_1_pairwise)

theorem short_sequences_sorted_witness:
  "length [PInt 42] \<le> 1 \<and>
   is_sorted_ascending Backport [PInt 42] True (Some (\<lambda>x. Inl KeyError)) = Inr True \<and>
   is_sorted_descending Backport [PInt 42] True (Some (\<lambda>x. Inl KeyError)) = Inr True"
  using short_sequences_sorted [of "[PInt 42]" Backport True "Some (\<lambda>x. Inl KeyError)"]
  by simp

section \<open>What the scan decides\<close>

text \<open>
  C1, as stated, says that a check returns \<open>False\<close> exactly when some adjacent pair
  violates the relation. In \<open>["a", 1, 0]\<close> the pair \<open>(1, 0)\<close> violates \<open><=\<close>, but the scan
  goes from left to right and the first comparison, \<open>"a" <= 1\<close>, raises: no boolean is
  returned.
\<close>

theorem false_iff_violation_counterexample:
  "spec_relation Le None [PStr ''a'', PInt 1, PInt 0] 1 = Some False \<and>
   is_sorted_ascending Builtin [PStr ''a'', PInt 1, PInt 0] False None = Inl TypeError \<and>
   is_sorted_ascending Backport [PStr ''a'', PInt 1, PInt 0] False None = Inl TypeError"
  by (simp add: eval_defs spec_relation_def spec_key_def)

text \<open>
  C1, amended: whenever \<open>pairwise\<close> yields all the adjacent pairs of the sequence (always
  with \<open>itertools.pairwise\<close>; with the backport unless a sequence of two or more
  elements starts with \<open>None\<close>), for every strict flag and key function (the identity
  when absent): \<open>is_sorted_ascending\<close> returns \<open>True\<close> if and only if every adjacent
  pair of projected elements satisfies \<open>key(e[i]) <= key(e[i+1])\<close> (\<open><\<close> when strict),
  and \<open>is_sorted_descending\<close> if and only if every such pair satisfies \<open>>=\<close> (\<open>>\<close>
  when strict); a check returns \<open>False\<close> exactly when some adjacent pair violates the
  relation and every pair before it satisfies it; and when every adjacent pair of
  projections is comparable, it returns \<open>False\<close> exactly when some adjacent pair
  violates the relation.
\<close>

theorem adjacent_pairs_decide:
  assumes "yields_all_pairs pw lst"
  shows
   "(is_sorted_ascending pw lst strict key = Inr True \<longleftrightarrow>
       (\<forall>i. Suc i < length lst \<longrightarrow>
            spec_relation (if strict then Lt else Le) key lst i = Some True)) \<and>
    (is_sorted_descending pw lst strict key = Inr True \<longleftrightarrow>
       (\<forall>i. Suc i < length lst \<longrightarrow>
            spec_relation (if strict then Gt else Ge) key lst i = Some True)) \<and>
    (is_sorted_ascending pw lst strict key = Inr False \<longleftrightarrow>
       (\<exists>i. Suc i < length lst \<and>
            spec_relation (if strict then Lt else Le) key lst i = Some False \<and>
            (\<forall>j < i. spec_relation (if strict then Lt else Le) key lst j = Some True))) \<and>
    (is_sorted_descending pw lst strict key = Inr False \<longleftrightarrow>
       (\<exists>i. Suc i < length lst \<and>
            spec_relation (if strict then Gt else Ge) key lst i = Some False \<and>
            (\<forall>j < i. spec_relation (if strict then Gt else Ge) key lst j = Some True))) \<and>
    ((\<forall>i. Suc i < length lst \<longrightarrow>
         spec_relation (if strict then Lt else Le) key lst i \<noteq> None) \<longrightarrow>
       (is_sorted_ascending pw lst strict key = Inr False \<longleftrightarrow>
          (\<exists>i. Suc i < length lst \<and>
               spec_relation (if strict then Lt else Le) key lst i = Some False))) \<and>
    ((\<forall>i. Suc i < length lst \<longrightarrow>
         spec_relation (if strict then Gt else Ge) key lst i \<noteq> None) \<longrightarrow>
       (is_sorted_descending pw lst strict key = Inr False \<longleftrightarrow>
          (\<exists>i. Suc i < length lst \<and>
               spec_relation (if strict then Gt else Ge) key lst i = Some False)))"
proof (intro conjI impI)
  show "is_sorted_ascending pw lst strict key = Inr True \<longleftrightarrow>
       (\<forall>i. Suc i < length lst \<longrightarrow>
            spec_relation (if strict then Lt else Le) key lst i = Some True)"
    unfolding asc_at_spec [symmetric] by (rule asc_True_iff [OF assms])
  show "is_sorted_descending pw lst strict key = Inr True \<longleftrightarrow>
       (\<forall>i. Suc i < length lst \<longrightarrow>
            spec_relation (if strict then Gt else Ge) key lst i = Some True)"
    unfolding desc_at_spec [symmetric] by (rule desc_True_iff [OF assms])
  show "is_sorted_ascending pw lst strict key = Inr False \<longleftrightarrow>
       (\<exists>i. Suc i < length lst \<and>
            spec_relation (if strict then Lt else Le) key lst i = Some False \<and>
            (\<forall>j < i. spec_relation (if strict then Lt else Le) key lst j = Some True))"
    unfolding asc_at_spec [symmetric] by (rule asc_stop_iff [OF assms]) simp
  show "is_sorted_descending pw lst strict key = Inr False \<longleftrightarrow>
       (\<exists>i. Suc i < length lst \<and>
            spec_relation (if strict then Gt else Ge) key lst i = Some False \<and>
            (\<forall>j < i. spec_relation (if strict then Gt else Ge) key lst j = Some True))"
    unfolding desc_at_spec [symmetric] by (rule desc_stop_iff [OF assms]) simp
next
  assume "\<forall>i. Suc i < length lst \<longrightarrow>
         spec_relation (if strict then Lt else Le) key lst i \<noteq> None"
  then have "\<forall>i. Suc i < length lst \<longrightarrow> \<not> isl (asc_at strict key lst i)"
    by (simp add: asc_at_spec_raises)
  then have "is_sorted_ascending pw lst strict key = Inr False \<longleftrightarrow>
          (\<exists>i. Suc i < length lst \<and> asc_at strict key lst i = Inr False)"
    unfolding asc_scan [OF assms] asc_at_def by (rule all_py_pairwise_False_total)
  then show "is_sorted_ascending pw lst strict key = Inr False \<longleftrightarrow>
          (\<exists>i. Suc i < length lst \<and>
               spec_relation (if strict then Lt else Le) key lst i = Some False)"
    by (simp add: asc_at_spec)
next
  assume "\<forall>i. Suc i < length lst \<longrightarrow>
         spec_relation (if strict then Gt else Ge) key lst i \<noteq> None"
  then have "\<forall>i. Suc i < length lst \<longrightarrow> \<not> isl (desc_at strict key lst i)"
    by (simp add: desc_at_spec_raises)
  then have "is_sorted_descending pw lst strict key = Inr False \<longleftrightarrow>
          (\<exists>i. Suc i < length lst \<and> desc_at strict key lst i = Inr False)"
    unfolding desc_scan [OF assms] desc_at_def by (rule all_py_pairwise_False_total)
  then show "is_sorted_descending pw lst strict key = Inr False \<longleftrightarrow>
          (\<exists>i. Suc i < length lst \<and>
               spec_relation (if strict then Gt else Ge) key lst i = Some False)"
    by (simp add: desc_at_spec)
qed

theorem adjacent_pairs_decide_witness:
  "yields_all_pairs Backport
     [PDict (fmupd ''age'' (PInt 3) fmempty), PDict (fmupd ''age'' (PInt 5) fmempty),
      PDict (fmupd ''age'' (PInt 5) fmempty)] \<and>
   is_sorted_ascending Backport
     [PDict (fmupd ''age'' (PInt 3) fmempty), PDict (fmupd ''age'' (PInt 5) fmempty),
      PDict (fmupd ''age'' (PInt 5) fmempty)] False (Some age_key) = Inr True \<and>
   spec_relation Le (Some age_key)
     [PDict (fmupd ''age'' (PInt 3) fmempty), PDict (fmupd ''age'' (PInt 5) fmempty),
      PDict (fmupd ''age'' (PInt 5) fmempty)] 0 = Some True \<and>
   spec_relation Le (Some age_key)
     [PDict (fmupd ''age'' (PInt 3) fmempty), PDict (fmupd ''age'' (PInt 5) fmempty),
      PDict (fmupd ''age'' (PInt 5) fmempty)] 1 = Some True \<and>
   is_sorted_ascending Backport
     [PDict (fmupd ''age'' (PInt 3) fmempty), PDict (fmupd ''age'' (PInt 5) fmempty),
      PDict (fmupd ''age'' (PInt 5) fmempty)] True (Some age_key) = Inr False \<and>
   (\<exists>i. Suc i < 3 \<and>
      spec_relation Lt (Some age_key)
        [PDict (fmupd ''age'' (PInt 3) fmempty), PDict (fmupd ''age'' (PInt 5) fmempty),
         PDict (fmupd ''age'' (PInt 5) fmempty)] i = Some False) \<and>
   is_sorted_descending Backport
     [PDict (fmupd ''age'' (PInt 3) fmempty), PDict (fmupd ''age'' (PInt 5) fmempty),
      PDict (fmupd ''age'' (PInt 5) fmempty)] False (Some age_key) = Inr False \<and>
   (\<exists>i. Suc i < 3 \<and>
      spec_relation Ge (Some age_key)
        [PDict (fmupd ''age'' (PInt 3) fmempty), PDict (fmupd ''age'' (PInt 5) fmempty),
         PDict (fmupd ''age'' (PInt 5) fmempty)] i = Some False)"
proof -
  define L where "L = [PDict (fmupd ''age'' (PInt 3) fmempty),
    PDict (fmupd ''age'' (PInt 5) fmempty), PDict (fmupd ''age'' (PInt 5) fmempty)]"
  have n: "length L = 3" by (simp add: L_def)
  have h: "yields_all_pairs Backport L" by (simp add: yields_all_pairs_def L_def)
  have a: "is_sorted_ascending Backport L False (Some age_key) = Inr True"
    by (simp add: eval_defs age_key_def L_def)
  have s: "is_sorted_ascending Backport L True (Some age_key) = Inr False"
    by (simp add: eval_defs age_key_def L_def)
  have d: "is_sorted_descending Backport L False (Some age_key) = Inr False"
    by (simp add: eval_defs age_key_def L_def)
  from adjacent_pairs_decide [OF h, of False "Some age_key"] a d n
  have 0: "\<forall>i. Suc i < 3 \<longrightarrow> spec_relation Le (Some age_key) L i = Some True"
    and 2: "\<exists>i. Suc i < 3 \<and> spec_relation Ge (Some age_key) L i = Some False"
    by auto
  from adjacent_pairs_decide [OF h, of True "Some age_key"] s n
  have 3: "\<exists>i. Suc i < 3 \<and> spec_relation Lt (Some age_key) L i = Some False"
    by auto
  from 0 have 1: "spec_relation Le (Some age_key) L 0 = Some True"
    "spec_relation Le (Some age_key) L 1 = Some True" by simp_all
  from h a s d 1 2 3 show ?thesis unfolding L_def by blast
qed

section \<open>The alternative implementations\<close>

text \<open>
  C2: the zip-based, loop and range variants return what the primary
  \<open>is_sorted_ascending\<close> returns without a key function. This holds whenever \<open>pairwise\<close>
  yields all the adjacent pairs (\<open>variants_agree\<close> above), but not with the backport on
  \<open>[None, 1]\<close>: the primary function returns \<open>True\<close> without comparing anything, while
  the three variants raise \<open>TypeError\<close> on \<open>None <= 1\<close>.
\<close>

theorem backport_differs_from_variants:
  "is_sorted_ascending Backport [PNone, PInt 1] False None = Inr True \<and>
   is_sorted_ascending_zip [PNone, PInt 1] False = Inl TypeError \<and>
   is_sorted_ascending_loop [PNone, PInt 1] False = Inl TypeError \<and>
   is_sorted_ascending_range [PNone, PInt 1] False = Inl TypeError"
  by (simp add: eval_defs)

section \<open>Comparison errors\<close>




section \<open>Reversal\<close>

text \<open>
  C4, as stated, holds of every sequence. On \<open>[2, 1, "a"]\<close> the ascending check returns
  \<open>False\<close> at its first pair, while the descending check of the reversed sequence raises
  \<open>TypeError\<close> at its first pair, \<open>("a", 1)\<close>.
\<close>

theorem reverse_counterexample:
  "is_sorted_ascending Builtin [PInt 2, PInt 1, PStr ''a''] False None = Inr False \<and>
   is_sorted_descending Builtin (rev [PInt 2, PInt 1, PStr ''a'']) False None = Inl TypeError"
  by (simp add: eval_defs)

text \<open>
  C4, amended: for every sequence \<open>S\<close> whose adjacent elements are comparable, and every
  strict flag \<open>s\<close>, \<open>is_sorted_ascending(S, strict=s)\<close> equals
  \<open>is_sorted_descending(reverse(S), strict=s)\<close>.
\<close>

theorem reverse_swaps_direction:
  assumes "adjacent_comparable S"
  shows "is_sorted_ascending pw S s None = is_sorted_descending pw (rev S) s None"
proof -
  obtain a where a: "is_sorted_ascending pw S s None = Inr a"
    using asc_returns_bool [OF assms] by blast
  obtain d where d: "is_sorted_descending pw (rev S) s None = Inr d"
    using desc_returns_bool [OF adjacent_comparable_rev [OF assms]] by blast
  have "a \<longleftrightarrow> (\<forall>i. Suc i < length S \<longrightarrow> asc_at s None S i = Inr True)"
    using asc_True_iff [OF adjacent_comparable_yields [OF assms], where strict = s and key = None and pw = pw] a by simp
  moreover have "d \<longleftrightarrow> (\<forall>i. Suc i < length (rev S) \<longrightarrow> desc_at s None (rev S) i = Inr True)"
    using desc_True_iff [OF adjacent_comparable_yields [OF adjacent_comparable_rev [OF assms]],
        where strict = s and key = None and pw = pw] d by simp
  ultimately have "a = d" using desc_rev_True_iff [of S s] by simp
  with a d show ?thesis by simp
qed

theorem reverse_swaps_direction_witness:
  "adjacent_comparable [PInt 1, PInt 3, PInt 2] \<and>
   is_sorted_ascending Backport [PInt 1, PInt 3, PInt 2] True None =
   is_sorted_descending Backport (rev [PInt 1, PInt 3, PInt 2]) True None"
proof -
  have h: "adjacent_comparable [PInt 1, PInt 3, PInt 2]"
    by (simp add: comparable_def)
  from reverse_swaps_direction [OF h, of Backport True] h show ?thesis by simp
qed

section \<open>Strictness and duplicates\<close>

text \<open>
  C6, as stated, holds of every sequence with an adjacent pair of equal elements. In
  \<open>["a", 1, 1]\<close> the elements at indices 1 and 2 are equal, but the strict ascending
  check raises \<open>TypeError\<close> at its first pair.
\<close>

theorem equal_neighbours_counterexample:
  "[PStr ''a'', PInt 1, PInt 1] ! 1 = [PStr ''a'', PInt 1, PInt 1] ! 2 \<and>
   is_sorted_ascending Builtin [PStr ''a'', PInt 1, PInt 1] True None = Inl TypeError \<and>
   is_sorted_ascending Backport [PStr ''a'', PInt 1, PInt 1] True None = Inl TypeError"
  by (simp add: eval_defs)

text \<open>
  C6, amended: for every sequence whose adjacent elements are comparable and which
  contains at least one adjacent pair of equal elements, \<open>is_sorted_ascending\<close> with
  \<open>strict=True\<close> returns \<open>False\<close>, and so does \<open>is_sorted_descending\<close>.
\<close>

theorem strict_rejects_equal_neighbours:
  assumes "adjacent_comparable lst" and "Suc i < length lst" and "lst ! i = lst ! Suc i"
  shows "is_sorted_ascending pw lst True None = Inr False \<and>
         is_sorted_descending pw lst True None = Inr False"
proof -
  have y: "yields_all_pairs pw lst" by (rule adjacent_comparable_yields [OF assms(1)])
  have "asc_at True None lst i \<noteq> Inr True"
    using py_cmp_same_strict [of Lt "lst ! i"] assms(3)
    by (simp add: asc_at_no_key compare_asc_def)
  with assms(2) have na: "is_sorted_ascending pw lst True None \<noteq> Inr True"
    using asc_True_iff [OF y, of True None] by blast
  have "desc_at True None lst i \<noteq> Inr True"
    using py_cmp_same_strict [of Gt "lst ! i"] assms(3)
    by (simp add: desc_at_no_key compare_desc_def)
  with assms(2) have nd: "is_sorted_descending pw lst True None \<noteq> Inr True"
    using desc_True_iff [OF y, of True None] by blast
  from asc_returns_bool [OF assms(1), of pw True] na
  have "is_sorted_ascending pw lst True None = Inr False" by auto
  moreover from desc_returns_bool [OF assms(1), of pw True] nd
  have "is_sorted_descending pw lst True None = Inr False" by auto
  ultimately show ?thesis by simp
qed

theorem strict_rejects_equal_neighbours_witness:
  "adjacent_comparable [PInt 1, PInt 2, PInt 2, PInt 3] \<and>
   [PInt 1, PInt 2, PInt 2, PInt 3] ! 1 = [PInt 1, PInt 2, PInt 2, PInt 3] ! Suc 1 \<and>
   is_sorted_ascending Backport [PInt 1, PInt 2, PInt 2, PInt 3] True None = Inr False \<and>
   is_sorted_descending Backport [PInt 1, PInt 2, PInt 2, PInt 3] True None = Inr False"
proof -
  have h: "adjacent_comparable [PInt 1, PInt 2, PInt 2, PInt 3]"
    by (simp add: comparable_def)
  have l: "Suc 1 < length [PInt 1, PInt 2, PInt 2, PInt 3]" by simp
  have q: "[PInt 1, PInt 2, PInt 2, PInt 3] ! 1 = [PInt 1, PInt 2, PInt 2, PInt 3] ! Suc 1"
    by simp
  from strict_rejects_equal_neighbours [OF h l q, of Backport] h q show ?thesis by blast
qed

text \<open>
  C10: if \<open>is_sorted_ascending(seq, strict=True)\<close> returns \<open>True\<close> then
  \<open>is_sorted_ascending(seq, strict=False)\<close> returns \<open>True\<close>, and likewise for
  \<open>is_sorted_descending\<close>, with any key function and either \<open>pairwise\<close>.
\<close>

theorem strict_implies_nonstrict:
  "(is_sorted_ascending pw lst True key = Inr True \<longrightarrow>
      is_sorted_ascending pw lst False key = Inr True) \<and>
   (is_sorted_descending pw lst True key = Inr True \<longrightarrow>
      is_sorted_descending pw lst False key = Inr True)"
  by (auto simp: is_sorted_ascending_def is_sorted_descending_def all_py_True_iff
      intro: compare_keys_relaxed compare_keys_relaxed_desc)

theorem strict_implies_nonstrict_witness:
  "is_sorted_ascending Builtin [PInt 1, PInt 2, PInt 4] True None = Inr True \<and>
   is_sorted_ascending Builtin [PInt 1, PInt 2, PInt 4] False None = Inr True \<and>
   is_sorted_descending Builtin [PStr ''c'', PStr ''b'', PStr ''a''] True None = Inr True \<and>
   is_sorted_descending Builtin [PStr ''c'', PStr ''b'', PStr ''a''] False None = Inr True"
proof -
  have a: "is_sorted_ascending Builtin [PInt 1, PInt 2, PInt 4] True None = Inr True"
    by (simp add: eval_defs)
  have d: "is_sorted_descending Builtin [PStr ''c'', PStr ''b'', PStr ''a''] True None = Inr True"
    by (simp add: eval_defs)
  from strict_implies_nonstrict [of Builtin "[PInt 1, PInt 2, PInt 4]" None] a
    strict_implies_nonstrict [of Builtin "[PStr ''c'', PStr ''b'', PStr ''a'']" None] d
  show ?thesis by blast
qed

section \<open>Key functions\<close>

text \<open>
  C7: a check with a key function returns what the check without one returns on the
  sequence of the projections. This holds whenever \<open>pairwise\<close> yields all the adjacent
  pairs of both sequences (\<open>key_as_mapped_sequence\<close> above), and the example of the
  claim evaluates to \<open>True\<close> (\<open>age_example\<close>). With the backport it fails on
  \<open>[None, 3, 1]\<close> with the key \<open>lambda x: 0 if x is None else x\<close>: the projections are
  \<open>[0, 3, 1]\<close>, which is not sorted, but the backport tests the element itself for
  \<open>None\<close>, yields no pair, and the check returns \<open>True\<close>.
\<close>

theorem key_checked_on_elements:
  "map_key none_as_zero [PNone, PInt 3, PInt 1] = Inr [PInt 0, PInt 3, PInt 1] \<and>
   is_sorted_ascending Backport [PInt 0, PInt 3, PInt 1] False None = Inr False \<and>
   is_sorted_ascending Backport [PNone, PInt 3, PInt 1] False (Some none_as_zero) = Inr True"
  by (simp add: eval_defs none_as_zero_def)

section \<open>The backport and \<open>None\<close>\<close>

text \<open>
  C9: the backport \<open>_pairwise\<close> yields no pair whenever the first element of its input
  is \<open>None\<close>; with it, \<open>is_sorted_ascending\<close> and \<open>is_sorted_descending\<close> return \<open>True\<close>
  for every sequence whose first element is \<open>None\<close>, whatever the other elements, the
  strict flag and the key function are. \<open>itertools.pairwise\<close> yields the pair of \<open>None\<close>
  and the second element, on which the checks bound to it, and the zip, loop and range
  variants, raise \<open>TypeError\<close>.
\<close>

theorem backport_None_first:
  "pairwise_backport (PNone # rest) = [] \<and>
   is_sorted_ascending Backport (PNone # rest) strict key = Inr True \<and>
   is_sorted_descending Backport (PNone # rest) strict key = Inr True \<and>
   itertools_pairwise (PNone # y # more) = (PNone, y) # itertools_pairwise (y # more) \<and>
   is_sorted_ascending Builtin (PNone # y # more) strict None = Inl TypeError \<and>
   is_sorted_descending Builtin (PNone # y # more) strict None = Inl TypeError \<and>
   is_sorted_ascending_zip (PNone # y # more) strict = Inl TypeError \<and>
   is_sorted_ascending_loop (PNone # y # more) strict = Inl TypeError \<and>
   is_sorted_ascending_range (PNone # y # more) strict = Inl TypeError"
proof -
  have z: "is_sorted_ascending_zip (PNone # y # more) strict = Inl TypeError"
    by (simp add: is_sorted_ascending_zip_def compare_asc_def)
  show ?thesis
    by (simp add: z loop_eq_range range_eq_zip)
       (simp add: eval_defs)
qed

section \<open>Purity\<close>

text \<open>
  C8: \<open>is_sorted_ascending\<close> and \<open>is_sorted_descending\<close> are pure. Run on a heap
  that holds the sequence, with a pure key function, a check returns the value that
  depends on the content of the sequence, the strict flag and the key function alone;
  it leaves the sequence, and every other object that existed before the call,
  unmodified (it only allocates and advances an iterator of its own); and a second call
  with the same arguments, on the heap the first call left, returns the same result.
\<close>

theorem checks_are_pure:
  assumes "heap_get h lst = Some (ListObj xs)"
  shows
   "fst (is_sorted_ascending_st pw h lst strict key) = is_sorted_ascending pw xs strict key \<and>
    (\<forall>a < length h. heap_get (snd (is_sorted_ascending_st pw h lst strict key)) a = heap_get h a) \<and>
    fst (is_sorted_ascending_st pw (snd (is_sorted_ascending_st pw h lst strict key)) lst strict key)
      = fst (is_sorted_ascending_st pw h lst strict key) \<and>
    fst (is_sorted_descending_st pw h lst strict key) = is_sorted_descending pw xs strict key \<and>
    (\<forall>a < length h. heap_get (snd (is_sorted_descending_st pw h lst strict key)) a = heap_get h a) \<and>
    fst (is_sorted_descending_st pw (snd (is_sorted_descending_st pw h lst strict key)) lst strict key)
      = fst (is_sorted_descending_st pw h lst strict key)"
proof -
  from assms have pl: "lst < length h" by (auto simp: heap_get_def split: if_splits)
  let ?ca = "compare_keys (compare_asc strict) (default_key key)"
  let ?cd = "compare_keys (compare_desc strict) (default_key key)"
  note a = pairwise_st_refines [OF assms, of pw ?ca]
  note d = pairwise_st_refines [OF assms, of pw ?cd]
  from a pl assms have a1: "heap_get (snd (pairwise_st pw ?ca h lst)) lst = Some (ListObj xs)"
    by simp
  from d pl assms have d1: "heap_get (snd (pairwise_st pw ?cd h lst)) lst = Some (ListObj xs)"
    by simp
  note a2 = pairwise_st_refines [OF a1, of pw ?ca]
  note d2 = pairwise_st_refines [OF d1, of pw ?cd]
  from a a2 d d2 show ?thesis
    by (simp add: is_sorted_ascending_st_def is_sorted_descending_st_def
        is_sorted_ascending_def is_sorted_descending_def)
qed

theorem checks_are_pure_witness:
  "heap_get [ListObj [PInt 1, PInt 3, PInt 2]] 0 = Some (ListObj [PInt 1, PInt 3, PInt 2]) \<and>
   fst (is_sorted_ascending_st Backport [ListObj [PInt 1, PInt 3, PInt 2]] 0 False None)
     = Inr False \<and>
   heap_get (snd (is_sorted_ascending_st Backport [ListObj [PInt 1, PInt 3, PInt 2]] 0 False None)) 0
     = Some (ListObj [PInt 1, PInt 3, PInt 2])"
proof -
  have h: "heap_get [ListObj [PInt 1, PInt 3, PInt 2]] 0 = Some (ListObj [PInt 1, PInt 3, PInt 2])"
    by (simp add: heap_get_def)
  have e: "is_sorted_ascending Backport [PInt 1, PInt 3, PInt 2] False None = Inr False"
    by (simp add: eval_defs)
  from checks_are_pure [OF h, of Backport False None] h e show ?thesis by simp
qed

end
